theory Spec2Isabelle
  imports Main "HOL-Library.Sublist" "HOL-Library.Word" "HOL-Library.Monad_Syntax"
begin

section \<open>Strings of the platform\<close>

text \<open>
  A \<open>std::string\<close> is a byte list. Wherever the program hands \<open>s.c_str()\<close> to a C
  function (\<open>fprintf\<close> with \<open>%s\<close>, \<open>fnmatch\<close>, \<open>fopen\<close>), the callee reads the bytes
  before the first NUL only.
\<close>

definition NUL :: char where
  "NUL = CHR 0x00"

definition LF :: char where
  "LF = CHR 0x0A"

definition CR :: char where
  "CR = CHR 0x0D"

definition c_str :: "string \<Rightarrow> string" where
  "c_str s = takeWhile (\<lambda>c. c \<noteq> NUL) s"

subsection \<open>\<open>fnmatch(pattern, string, 0)\<close>\<close>

text \<open>
  \<open>fnmatch\<close> belongs to the C library, not to the repository. It is modelled after the
  POSIX pattern notation for the flag value 0 that every call site passes: \<open>?\<close> is any
  one byte, \<open>*\<close> any run of bytes (a slash and a leading period included, since neither
  \<open>FNM_PATHNAME\<close> nor \<open>FNM_PERIOD\<close> is set), a backslash quotes the next byte, and
  \<open>[...]\<close> is a bracket expression with \<open>!\<close> or \<open>^\<close> for the complement, ranges, and a
  leading \<open>]\<close> taken literally; a \<open>[\<close> that is never closed stands for itself. The
  locale-dependent forms inside brackets (\<open>[:class:]\<close>, \<open>[=c=]\<close>, \<open>[.c.]\<close>) are read as
  ordinary bytes. \<open>fnmatch p s\<close> is \<open>True\<close> exactly when the C call returns 0.
\<close>

text \<open>First pass: resolve backslash quoting. \<open>None\<close> is a pattern ending in a lone backslash.\<close>

fun unquote :: "string \<Rightarrow> (bool \<times> char) list option" where
  "unquote [] = Some []"
| "unquote [c] = (if c = CHR 0x5C then None else Some [(False, c)])"
| "unquote (c # d # p) =
     (if c = CHR 0x5C then map_option (Cons (True, d)) (unquote p)
      else map_option (Cons (False, c)) (unquote (d # p)))"

text \<open>
  The members of a bracket expression, as inclusive ranges, and the pattern left after the
  closing bracket; \<open>None\<close> when the bracket is never closed.
\<close>

fun bracket_items :: "bool \<Rightarrow> (bool \<times> char) list \<Rightarrow> ((char \<times> char) list \<times> (bool \<times> char) list) option" where
  "bracket_items first [] = None"
| "bracket_items first [(q, c)] =
     (if \<not> q \<and> c = CHR '']'' \<and> \<not> first then Some ([], []) else None)"
| "bracket_items first [(q, c), (q1, d)] =
     (if \<not> q \<and> c = CHR '']'' \<and> \<not> first then Some ([], [(q1, d)])
      else map_option (apfst (Cons (c, c))) (bracket_items False [(q1, d)]))"
| "bracket_items first ((q, c) # (q1, d) # (q2, hi) # p) =
     (if \<not> q \<and> c = CHR '']'' \<and> \<not> first then Some ([], (q1, d) # (q2, hi) # p)
      else if \<not> q1 \<and> d = CHR ''-'' \<and> (q2 \<or> hi \<noteq> CHR '']'')
        then map_option (apfst (Cons (c, hi))) (bracket_items False p)
        else map_option (apfst (Cons (c, c))) (bracket_items False ((q1, d) # (q2, hi) # p)))"

definition bracket :: "(bool \<times> char) list \<Rightarrow> (bool \<times> (char \<times> char) list \<times> (bool \<times> char) list) option" where
  "bracket p =
     (case p of
        (q, c) # p' \<Rightarrow>
          if \<not> q \<and> (c = CHR ''!'' \<or> c = CHR ''^'')
          then map_option (Pair True) (bracket_items True p')
          else map_option (Pair False) (bracket_items True p)
      | [] \<Rightarrow> None)"

definition in_ranges :: "char \<Rightarrow> (char \<times> char) list \<Rightarrow> bool" where
  "in_ranges x rs = list_ex (\<lambda>(lo, hi). of_char lo \<le> (of_char x :: nat) \<and> (of_char x :: nat) \<le> of_char hi) rs"

lemma bracket_items_length:
  "bracket_items first p = Some (rs, rest) \<Longrightarrow> length rest < length p"
  by (induction first p arbitrary: rs rest rule: bracket_items.induct)
     (fastforce split: if_splits)+

lemma bracket_length:
  "bracket p = Some (neg, rs, rest) \<Longrightarrow> length rest < length p"
  by (cases p) (auto simp: bracket_def split: if_splits dest!: bracket_items_length)

function glob :: "(bool \<times> char) list \<Rightarrow> string \<Rightarrow> bool" where
  "glob [] s = (s = [])"
| "glob ((q, c) # p) s =
     (if \<not> q \<and> c = CHR ''*''
      then glob p s \<or> (case s of [] \<Rightarrow> False | x # s' \<Rightarrow> glob ((q, c) # p) s')
      else case s of
        [] \<Rightarrow> False
      | x # s' \<Rightarrow>
          if \<not> q \<and> c = CHR ''?'' then glob p s'
          else if \<not> q \<and> c = CHR ''[''
            then (case bracket p of
                    Some (neg, rs, rest) \<Rightarrow> in_ranges x rs \<noteq> neg \<and> glob rest s'
                  | None \<Rightarrow> x = c \<and> glob p s')
            else x = c \<and> glob p s')"
  by pat_completeness auto
termination
  by (relation "measure (\<lambda>(p, s). length p + length s)")
     (auto dest: bracket_length)

definition fnmatch :: "string \<Rightarrow> string \<Rightarrow> bool" where
  "fnmatch pattern string =
     (case unquote (c_str pattern) of
        None \<Rightarrow> False
      | Some p \<Rightarrow> glob p (c_str string))"

subsection \<open>\<open>std::filesystem::path\<close> decomposition\<close>

text \<open>
  \<open>filename()\<close> and \<open>parent_path()\<close> of the C++ library, for POSIX paths: the filename
  is what follows the last slash (empty for a path that ends in one); the parent path is
  the path itself when it has no relative part (empty, or slashes only), otherwise the
  prefix that ends with the component before the last one, which is empty for a single
  relative component and \<open>/\<close> for a component right under the root.
\<close>

definition filename :: "string \<Rightarrow> string" where
  "filename p = rev (takeWhile (\<lambda>c. c \<noteq> CHR ''/'') (rev p))"

definition parent_path :: "string \<Rightarrow> string" where
  "parent_path p =
     (if list_all (\<lambda>c. c = CHR ''/'') p then p
      else let r = rev (dropWhile (\<lambda>c. c \<noteq> CHR ''/'') (rev p));
               r' = rev (dropWhile (\<lambda>c. c = CHR ''/'') (rev r))
           in if r = [] then [] else if r' = [] then ''/'' else r')"

subsection \<open>The file system\<close>

text \<open>
  What the program asks of the file system, as of one moment: the three status queries,
  the entries \<open>fs::recursive_directory_iterator\<close> yields for a directory (their paths, in
  the iterator's order, for an iteration that runs to its end), the bytes a successful
  \<open>fopen(path, "r")\<close> gives access to (\<open>None\<close> when the open fails), and whether
  \<open>fopen(path, "w")\<close> succeeds.
\<close>

record filesystem =
  fs_exists :: "string \<Rightarrow> bool"
  fs_is_regular_file :: "string \<Rightarrow> bool"
  fs_is_directory :: "string \<Rightarrow> bool"
  recursive_directory_iterator :: "string \<Rightarrow> string list"
  fopen_r :: "string \<Rightarrow> string option"
  fopen_w :: "string \<Rightarrow> bool"

section \<open>Ignore rules\<close>

text \<open>\<open>should_ignore\<close> (main.cpp, lines 26-39): the loop over the rules, first hit returns.\<close>

primrec should_ignore :: "filesystem \<Rightarrow> string \<Rightarrow> string list \<Rightarrow> bool" where
  "should_ignore fs path [] = False"
| "should_ignore fs path (rule # gitignore_rules) =
     (if fnmatch rule (filename path) then True
      else if fs_is_directory fs path \<and> fnmatch (filename path @ ''/'') rule then True
      else should_ignore fs path gitignore_rules)"

text \<open>
  \<open>getline\<close> hands out the file one line at a time, the terminating newline included; a
  last line without a newline is handed out as it is, and an empty rest ends the loop.
\<close>

fun getlines :: "string \<Rightarrow> string \<Rightarrow> string list" where
  "getlines acc [] = (if acc = [] then [] else [acc])"
| "getlines acc (c # cs) =
     (if c = LF then (acc @ [c]) # getlines [] cs else getlines (acc @ [c]) cs)"

text \<open>
  \<open>line[strcspn(line, "\r\n")] = 0\<close>: the line, read as a C string, is cut at its first
  carriage return or newline.
\<close>

definition strcspn_cut :: "string \<Rightarrow> string" where
  "strcspn_cut line = takeWhile (\<lambda>c. c \<noteq> CR \<and> c \<noteq> LF) (c_str line)"

text \<open>The body of the \<open>while (getline ...)\<close> loop of \<open>read_gitignore\<close> (lines 48-54).\<close>

fun read_gitignore_loop :: "string list \<Rightarrow> string list \<Rightarrow> string list" where
  "read_gitignore_loop rules [] = rules"
| "read_gitignore_loop rules (line # lines) =
     (let l = strcspn_cut line
      in if length l > 0 \<and> hd l \<noteq> CHR ''#''
         then read_gitignore_loop (rules @ [l]) lines
         else read_gitignore_loop rules lines)"

definition read_gitignore :: "filesystem \<Rightarrow> string \<Rightarrow> string list" where
  "read_gitignore fs path =
     (let gitignore_path = path @ ''/.gitignore''
      in case fopen_r fs (c_str gitignore_path) of
           None \<Rightarrow> []
         | Some bytes \<Rightarrow> read_gitignore_loop [] (getlines [] bytes))"

section \<open>The filter on directory entries\<close>

text \<open>\<open>filename[0]\<close> of a \<open>std::string\<close>: the terminating NUL when the string is empty.\<close>

definition at0 :: "string \<Rightarrow> char" where
  "at0 s = (case s of [] \<Rightarrow> NUL | c # _ \<Rightarrow> c)"

primrec ignore_patterns_loop :: "string list \<Rightarrow> string \<Rightarrow> bool" where
  "ignore_patterns_loop [] fname = False"
| "ignore_patterns_loop (pattern # ps) fname =
     (if fnmatch pattern fname then True else ignore_patterns_loop ps fname)"

text \<open>\<open>s.compare(pos, len, str) == 0\<close>, for \<open>pos \<le> s.size()\<close>.\<close>

definition compare_eq :: "string \<Rightarrow> nat \<Rightarrow> nat \<Rightarrow> string \<Rightarrow> bool" where
  "compare_eq s pos len str = (take len (drop pos s) = str)"

primrec extensions_loop :: "string list \<Rightarrow> string \<Rightarrow> bool" where
  "extensions_loop [] fname = False"
| "extensions_loop (ext # es) fname =
     (if length fname \<ge> length ext \<and>
         compare_eq fname (length fname - length ext) (length ext) ext
      then True else extensions_loop es fname)"

text \<open>\<open>should_ignore_file\<close> (lines 93-119).\<close>

definition should_ignore_file :: "string \<Rightarrow> string list \<Rightarrow> string list \<Rightarrow> bool \<Rightarrow> bool" where
  "should_ignore_file fname ignore_patterns extensions include_hidden =
     (if \<not> include_hidden \<and> at0 fname = CHR ''.'' then True
      else if ignore_patterns_loop ignore_patterns fname then True
      else if extensions \<noteq> [] then (if extensions_loop extensions fname then False else True)
      else False)"

section \<open>Output\<close>

text \<open>
  The run's observable state: the bytes written to the writer, the bytes written to
  \<open>stderr\<close>, and the function-local \<open>static int global_index\<close> of \<open>print_path\<close>, a 32-bit
  two's-complement integer that starts at 1.
\<close>

record state =
  out :: string
  err :: string
  global_index :: "32 word"

definition initial_state :: state where
  "initial_state = \<lparr>out = [], err = [], global_index = 1\<rparr>"

text \<open>
  The \<open>FILE*\<close> the run writes to: \<open>stdout\<close>, the file opened for \<open>-o\<close>, or the null pointer
  a failed \<open>fopen\<close> returns.
\<close>

datatype writer = Null | Stdout | File string

text \<open>
  \<open>fprintf(writer, ...)\<close> with the formatted text. Writing through a null stream is not
  defined; that outcome is \<open>None\<close>, and nothing after it is modelled.
\<close>

definition fprintf :: "writer \<Rightarrow> string \<Rightarrow> state \<Rightarrow> state option" where
  "fprintf w text st = (if w = Null then None else Some (st\<lparr>out := out st @ text\<rparr>))"

definition printe :: "string \<Rightarrow> state \<Rightarrow> state" where
  "printe text st = st\<lparr>err := err st @ text\<rparr>"

text \<open>The conversion \<open>%d\<close>: decimal digits, with a minus sign for a negative value.\<close>

fun dec :: "nat \<Rightarrow> string" where
  "dec n = (if n < 10 then [''0123456789'' ! n] else dec (n div 10) @ [''0123456789'' ! (n mod 10)])"

definition fmt_d :: "int \<Rightarrow> string" where
  "fmt_d i = (if i < 0 then CHR ''-'' # dec (nat (- i)) else dec (nat i))"

text \<open>\<open>print_path\<close> (lines 60-75).\<close>

definition print_path :: "writer \<Rightarrow> string \<Rightarrow> string \<Rightarrow> bool \<Rightarrow> state \<Rightarrow> state option" where
  "print_path w path content xml st =
     (if xml then do {
        st1 \<leftarrow> fprintf w (''<document index='' @ [CHR 0x22] @ fmt_d (sint (global_index st)) @ [CHR 0x22] @ ''>\<newline>'') st;
        st2 \<leftarrow> fprintf w (''<source>'' @ c_str path @ ''</source>\<newline>'') st1;
        st3 \<leftarrow> fprintf w (''<document_content>\<newline>'' @ c_str content @ ''\<newline></document_content>\<newline>'') st2;
        st4 \<leftarrow> fprintf w ''</document>\<newline>'' st3;
        Some (st4\<lparr>global_index := global_index st4 + 1\<rparr>)
      }
      else fprintf w (c_str path @ ''\<newline>---\<newline>'' @ c_str content @ ''\<newline>---\<newline>'') st)"

text \<open>\<open>read_file_content\<close> (lines 77-91): the content, and the warning on \<open>stderr\<close>.\<close>

definition read_file_content :: "filesystem \<Rightarrow> string \<Rightarrow> state \<Rightarrow> string \<times> state" where
  "read_file_content fs path st =
     (case fopen_r fs (c_str path) of
        Some bytes \<Rightarrow> (bytes, st)
      | None \<Rightarrow>
          ([], printe (''Warning: Skipping file '' @ c_str path @ '' due to error opening file\<newline>'') st))"

text \<open>\<open>process_file\<close> (lines 121-128).\<close>

definition process_file :: "filesystem \<Rightarrow> string \<Rightarrow> writer \<Rightarrow> bool \<Rightarrow> state \<Rightarrow> state option" where
  "process_file fs path w claude_xml st =
     (let (content, st1) = read_file_content fs path st
      in if content \<noteq> [] then print_path w path content claude_xml st1 else Some st1)"

section \<open>Traversal\<close>

text \<open>
  \<open>process_directory\<close> (lines 130-153): the loop over the iterator's entries, each
  \<open>continue\<close> going on with the next entry.
\<close>

fun process_directory_loop ::
  "filesystem \<Rightarrow> string list \<Rightarrow> string list \<Rightarrow> bool \<Rightarrow> bool \<Rightarrow> string list \<Rightarrow> string list \<Rightarrow>
   writer \<Rightarrow> bool \<Rightarrow> state \<Rightarrow> state option" where
  "process_directory_loop fs [] extensions include_hidden ignore_gitignore gitignore_rules
     ignore_patterns w claude_xml st = Some st"
| "process_directory_loop fs (entry # entries) extensions include_hidden ignore_gitignore
     gitignore_rules ignore_patterns w claude_xml st =
     (if fs_is_directory fs entry
      then process_directory_loop fs entries extensions include_hidden ignore_gitignore
             gitignore_rules ignore_patterns w claude_xml st
      else let file_path = entry; fname = filename entry
        in if should_ignore_file fname ignore_patterns extensions include_hidden
           then process_directory_loop fs entries extensions include_hidden ignore_gitignore
                  gitignore_rules ignore_patterns w claude_xml st
           else if \<not> ignore_gitignore \<and> should_ignore fs file_path gitignore_rules
           then process_directory_loop fs entries extensions include_hidden ignore_gitignore
                  gitignore_rules ignore_patterns w claude_xml st
           else do {
             st1 \<leftarrow> process_file fs file_path w claude_xml st;
             process_directory_loop fs entries extensions include_hidden ignore_gitignore
               gitignore_rules ignore_patterns w claude_xml st1
           })"

definition process_directory ::
  "filesystem \<Rightarrow> string \<Rightarrow> string list \<Rightarrow> bool \<Rightarrow> bool \<Rightarrow> string list \<Rightarrow> string list \<Rightarrow>
   writer \<Rightarrow> bool \<Rightarrow> state \<Rightarrow> state option" where
  "process_directory fs path extensions include_hidden ignore_gitignore gitignore_rules
     ignore_patterns w claude_xml st =
     process_directory_loop fs (recursive_directory_iterator fs path) extensions include_hidden
       ignore_gitignore gitignore_rules ignore_patterns w claude_xml st"

text \<open>\<open>process_path\<close> (lines 155-169).\<close>

definition process_path ::
  "filesystem \<Rightarrow> string \<Rightarrow> string list \<Rightarrow> bool \<Rightarrow> bool \<Rightarrow> string list \<Rightarrow> string list \<Rightarrow>
   writer \<Rightarrow> bool \<Rightarrow> state \<Rightarrow> state option" where
  "process_path fs path extensions include_hidden ignore_gitignore gitignore_rules
     ignore_patterns w claude_xml st =
     (if fs_is_regular_file fs path then process_file fs path w claude_xml st
      else if fs_is_directory fs path
        then process_directory fs path extensions include_hidden ignore_gitignore
               gitignore_rules ignore_patterns w claude_xml st
        else Some st)"

section \<open>The run\<close>

text \<open>
  The variables \<open>main\<close> holds once \<open>getopt\<close> has read the command line (lines 173-179);
  the option parsing itself is outside the model.
\<close>

record options =
  paths :: "string list"
  extensions :: "string list"
  ignore_patterns :: "string list"
  include_hidden :: bool
  ignore_gitignore :: bool
  claude_xml :: bool
  output_file :: string

text \<open>
  How the loop over the paths (lines 224-238) ends: by \<open>return 1\<close> from inside it, or by
  running out of paths with the rules gathered so far.
\<close>

datatype loop_end = Returned int state | Fell_through "string list" state

fun main_loop ::
  "filesystem \<Rightarrow> options \<Rightarrow> string list \<Rightarrow> writer \<Rightarrow> string list \<Rightarrow> string list \<Rightarrow> state \<Rightarrow>
   loop_end option" where
  "main_loop fs opts all_paths w [] gitignore_rules st = Some (Fell_through gitignore_rules st)"
| "main_loop fs opts all_paths w (path # rest) gitignore_rules st =
     (if \<not> fs_exists fs path
      then Some (Returned 1 (printe (''Path does not exist: '' @ c_str path @ ''\<newline>'') st))
      else let gitignore_rules1 =
                 (if \<not> ignore_gitignore opts
                  then gitignore_rules @ read_gitignore fs (parent_path path)
                  else gitignore_rules)
        in do {
          st1 \<leftarrow> (if claude_xml opts \<and> path = all_paths ! 0
                  then fprintf w ''<documents>\<newline>'' st else Some st);
          st2 \<leftarrow> process_path fs path (extensions opts) (include_hidden opts)
                  (ignore_gitignore opts) gitignore_rules1 (ignore_patterns opts) w
                  (claude_xml opts) st1;
          main_loop fs opts all_paths w rest gitignore_rules1 st2
        })"

text \<open>
  \<open>main\<close> from line 212 on: the exit status and the final state, or \<open>None\<close> when the run
  writes through a null stream.
\<close>

definition main :: "filesystem \<Rightarrow> options \<Rightarrow> (int \<times> state) option" where
  "main fs opts =
     (let all_paths = (if paths opts = [] then [''.''] else paths opts);
          w = (if output_file opts \<noteq> []
               then (if fopen_w fs (c_str (output_file opts)) then File (output_file opts) else Null)
               else Stdout)
      in case main_loop fs opts all_paths w all_paths [] initial_state of
           None \<Rightarrow> None
         | Some (Returned code st) \<Rightarrow> Some (code, st)
         | Some (Fell_through gitignore_rules st) \<Rightarrow> do {
             st1 \<leftarrow> (if claude_xml opts then fprintf w ''</documents>\<newline>'' st else Some st);
             Some (0, st1)
           })"

section \<open>The documents of a run\<close>

text \<open>
  The abstract view the run is compared with: which files become documents, in which
  order, and how a document is written in either format. A document is a pair of the path
  as the program holds it and the content it read.
\<close>

type_synonym document = "string \<times> string"

definition plain_document :: "document \<Rightarrow> string" where
  "plain_document d =
     c_str (fst d) @ ''\<newline>---\<newline>'' @ c_str (snd d) @ ''\<newline>---\<newline>''"

definition xml_document :: "int \<Rightarrow> document \<Rightarrow> string" where
  "xml_document n d =
     ''<document index='' @ [CHR 0x22] @ fmt_d n @ [CHR 0x22] @ ''>\<newline>'' @
     ''<source>'' @ c_str (fst d) @ ''</source>\<newline>'' @
     ''<document_content>\<newline>'' @ c_str (snd d) @ ''\<newline></document_content>\<newline>'' @
     ''</document>\<newline>''"

text \<open>The document of one file: none when it cannot be opened or has no content.\<close>

definition file_docs :: "filesystem \<Rightarrow> string \<Rightarrow> document list" where
  "file_docs fs path =
     (case fopen_r fs (c_str path) of
        None \<Rightarrow> []
      | Some bytes \<Rightarrow> if bytes \<noteq> [] then [(path, bytes)] else [])"

definition directory_docs ::
  "filesystem \<Rightarrow> string \<Rightarrow> string list \<Rightarrow> bool \<Rightarrow> bool \<Rightarrow> string list \<Rightarrow> string list \<Rightarrow> document list" where
  "directory_docs fs path exts hid ig rules pats =
     concat (map (file_docs fs)
       (filter (\<lambda>entry. \<not> fs_is_directory fs entry \<and>
                        \<not> should_ignore_file (filename entry) pats exts hid \<and>
                        \<not> (\<not> ig \<and> should_ignore fs entry rules))
               (recursive_directory_iterator fs path)))"

definition path_docs ::
  "filesystem \<Rightarrow> string \<Rightarrow> string list \<Rightarrow> bool \<Rightarrow> bool \<Rightarrow> string list \<Rightarrow> string list \<Rightarrow> document list" where
  "path_docs fs path exts hid ig rules pats =
     (if fs_is_regular_file fs path then file_docs fs path
      else if fs_is_directory fs path then directory_docs fs path exts hid ig rules pats
      else [])"

text \<open>
  The roots a run gets to, each with its documents: the paths before the first one that
  does not exist, the rules growing from root to root as in the loop of \<open>main\<close>.
\<close>

fun run_docs :: "filesystem \<Rightarrow> options \<Rightarrow> string list \<Rightarrow> string list \<Rightarrow> (string \<times> document list) list" where
  "run_docs fs opts rules [] = []"
| "run_docs fs opts rules (path # rest) =
     (if \<not> fs_exists fs path then []
      else let rules1 = (if \<not> ignore_gitignore opts
                         then rules @ read_gitignore fs (parent_path path) else rules)
        in (path, path_docs fs path (extensions opts) (include_hidden opts)
                    (ignore_gitignore opts) rules1 (ignore_patterns opts))
           # run_docs fs opts rules1 rest)"

definition given_paths :: "options \<Rightarrow> string list" where
  "given_paths opts = (if paths opts = [] then [''.''] else paths opts)"

definition emitted :: "filesystem \<Rightarrow> options \<Rightarrow> document list" where
  "emitted fs opts = concat (map snd (run_docs fs opts [] (given_paths opts)))"

definition writer_opens :: "filesystem \<Rightarrow> options \<Rightarrow> bool" where
  "writer_opens fs opts = (if output_file opts = [] then True else fopen_w fs (c_str (output_file opts)))"

text \<open>What the XML output is made of: the two envelope tags and numbered documents.\<close>

datatype item = Open_tag | Close_tag | Doc int document

fun render_item :: "item \<Rightarrow> string" where
  "render_item Open_tag = ''<documents>\<newline>''"
| "render_item Close_tag = ''</documents>\<newline>''"
| "render_item (Doc n d) = xml_document n d"

fun numbered_docs :: "item list \<Rightarrow> (int \<times> document) list" where
  "numbered_docs [] = []"
| "numbered_docs (Doc n d # its) = (n, d) # numbered_docs its"
| "numbered_docs (_ # its) = numbered_docs its"

text \<open>
  The items of an XML run, the index counter threaded through as \<open>print_path\<close> does:
  each root equal to the first path is preceded by an opening tag.
\<close>

fun doc_items :: "32 word \<Rightarrow> document list \<Rightarrow> item list" where
  "doc_items i [] = []"
| "doc_items i (d # ds) = Doc (sint i) d # doc_items (i + 1) ds"

fun root_items :: "string \<Rightarrow> 32 word \<Rightarrow> (string \<times> document list) list \<Rightarrow> item list" where
  "root_items first i [] = []"
| "root_items first i ((path, ds) # rest) =
     (if path = first then [Open_tag] else []) @ doc_items i ds @
     root_items first (i + of_nat (length ds)) rest"

text \<open>
  What a stretch of documents adds to the output when the counter stands at \<open>i\<close>, and where
  it leaves the counter.
\<close>

definition rendering :: "bool \<Rightarrow> 32 word \<Rightarrow> document list \<Rightarrow> string" where
  "rendering xml i ds =
     (if xml then concat (map render_item (doc_items i ds)) else concat (map plain_document ds))"

definition advance :: "bool \<Rightarrow> 32 word \<Rightarrow> document list \<Rightarrow> 32 word" where
  "advance xml i ds = (if xml then i + of_nat (length ds) else i)"

text \<open>The same for a stretch of roots, each with its documents.\<close>

fun run_rendering :: "bool \<Rightarrow> string \<Rightarrow> 32 word \<Rightarrow> (string \<times> document list) list \<Rightarrow> string" where
  "run_rendering xml first i [] = []"
| "run_rendering xml first i ((path, ds) # rest) =
     (if xml \<and> path = first then ''<documents>\<newline>'' else []) @ rendering xml i ds @
     run_rendering xml first (advance xml i ds) rest"

definition xml_items :: "filesystem \<Rightarrow> options \<Rightarrow> item list" where
  "xml_items fs opts =
     root_items (given_paths opts ! 0) 1 (run_docs fs opts [] (given_paths opts)) @
     (if list_all (fs_exists fs) (given_paths opts) then [Close_tag] else [])"

text \<open>Splitting a text at every occurrence of a delimiter, leftmost first.\<close>

function split_on :: "string \<Rightarrow> string \<Rightarrow> string list" where
  "split_on d s =
     (if d = [] then [s]
      else if s = [] then [[]]
      else if prefix d s then [] # split_on d (drop (length d) s)
      else case split_on d (tl s) of
             [] \<Rightarrow> [[hd s]]
           | piece # pieces \<Rightarrow> (hd s # piece) # pieces)"
  by pat_completeness auto
termination
  by (relation "measure (\<lambda>(d, s). length s)") (auto simp: prefix_def)

declare split_on.simps [simp del]

definition delimiter :: string where
  "delimiter = ''\<newline>---\<newline>''"

text \<open>
  A text that can stand between two delimiters without disturbing the split: it holds no
  NUL (so \<open>%s\<close> prints all of it), no delimiter, and does not end in \<open>\n---\<close>, which
  together with the newline of the delimiter that follows would form one too early.
\<close>

definition splits_cleanly :: "string \<Rightarrow> bool" where
  "splits_cleanly s =
     (NUL \<notin> set s \<and> \<not> sublist delimiter s \<and> \<not> suffix ''\<newline>---'' s)"

section \<open>An example file system\<close>

text \<open>
  A small tree for the concrete checks: a project directory with a text file, a hidden
  file, an empty file and a build directory holding one file; a notes file whose content
  has a line of three dashes; an empty directory; and rules at \<open>/.gitignore\<close> with a
  comment, a blank line and a line ending in CR LF. Only \<open>out.txt\<close> can be opened for
  writing.
\<close>

definition tree_files :: "(string \<times> string) list" where
  "tree_files =
     [(''proj/a.txt'', ''hi''),
      (''proj/.hidden'', ''x''),
      (''proj/b.log'', []),
      (''proj/build/out.txt'', ''o''),
      (''notes.md'', ''a\<newline>---\<newline>b''),
      (''/.gitignore'', ''# rules\<newline>build/\<newline>\<newline>*.tmp'' @ [CR, LF])]"

definition tree_dirs :: "string list" where
  "tree_dirs = [''proj'', ''proj/build'', ''empty'']"

definition tree_fs :: filesystem where
  "tree_fs =
     \<lparr>fs_exists = (\<lambda>p. List.member tree_dirs p \<or> map_of tree_files p \<noteq> None),
      fs_is_regular_file = (\<lambda>p. map_of tree_files p \<noteq> None),
      fs_is_directory = (\<lambda>p. List.member tree_dirs p),
      recursive_directory_iterator = (\<lambda>p.
         if p = ''proj''
         then [''proj/a.txt'', ''proj/.hidden'', ''proj/b.log'', ''proj/build'', ''proj/build/out.txt'']
         else if p = ''proj/build'' then [''proj/build/out.txt''] else []),
      fopen_r = map_of tree_files,
      fopen_w = (\<lambda>p. p = ''out.txt'')\<rparr>"

definition run_options :: "string list \<Rightarrow> bool \<Rightarrow> string \<Rightarrow> options" where
  "run_options roots xml outfile =
     \<lparr>paths = roots, extensions = [], ignore_patterns = [], include_hidden = False,
      ignore_gitignore = False, claude_xml = xml, output_file = outfile\<rparr>"

section \<open>What the run writes\<close>

text \<open>
  With a writer that is not null, every step of the run succeeds, and what it appends to
  the output is the rendering of the documents it covers.
\<close>

lemma fprintf_open: "w \<noteq> Null \<Longrightarrow> fprintf w t st = Some (st\<lparr>out := out st @ t\<rparr>)"
  by (simp add: fprintf_def)

lemma print_path_open:
  "w \<noteq> Null \<Longrightarrow>
   print_path w path content xml st =
     (if xml
      then Some (st\<lparr>out := out st @ xml_document (sint (global_index st)) (path, content),
                     global_index := global_index st + 1\<rparr>)
      else Some (st\<lparr>out := out st @ plain_document (path, content)\<rparr>))"
  by (simp add: print_path_def fprintf_open xml_document_def plain_document_def)

lemma doc_items_append:
  "doc_items i (ds @ es) = doc_items i ds @ doc_items (i + of_nat (length ds)) es"
  by (induction ds arbitrary: i) (simp_all add: add.assoc)

lemma rendering_append:
  "rendering xml i (ds @ es) = rendering xml i ds @ rendering xml (advance xml i ds) es"
  by (simp add: rendering_def advance_def doc_items_append)

lemma advance_append:
  "advance xml i (ds @ es) = advance xml (advance xml i ds) es"
  by (simp add: advance_def add.assoc)

lemma rendering_Nil: "rendering xml i [] = []"
  by (simp add: rendering_def)

lemma advance_Nil: "advance xml i [] = i"
  by (simp add: advance_def)

lemma process_file_effect:
  assumes "w \<noteq> Null"
  shows "\<exists>st'. process_file fs path w xml st = Some st' \<and>
           out st' = out st @ rendering xml (global_index st) (file_docs fs path) \<and>
           global_index st' = advance xml (global_index st) (file_docs fs path)"
  using assms
  by (auto simp: process_file_def read_file_content_def file_docs_def print_path_open printe_def
                 rendering_def advance_def
           split: option.splits)

lemma process_directory_loop_effect:
  assumes "w \<noteq> Null"
  shows "\<exists>st'. process_directory_loop fs entries exts hid ig rules pats w xml st = Some st' \<and>
           out st' = out st @ rendering xml (global_index st)
             (concat (map (file_docs fs)
                (filter (\<lambda>entry. \<not> fs_is_directory fs entry \<and>
                                 \<not> should_ignore_file (filename entry) pats exts hid \<and>
                                 \<not> (\<not> ig \<and> should_ignore fs entry rules)) entries))) \<and>
           global_index st' = advance xml (global_index st)
             (concat (map (file_docs fs)
                (filter (\<lambda>entry. \<not> fs_is_directory fs entry \<and>
                                 \<not> should_ignore_file (filename entry) pats exts hid \<and>
                                 \<not> (\<not> ig \<and> should_ignore fs entry rules)) entries)))"
proof (induction entries arbitrary: st)
  case Nil
  show ?case by (simp add: rendering_Nil advance_Nil)
next
  case (Cons entry entries)
  let ?keep = "\<lambda>entry. \<not> fs_is_directory fs entry \<and>
                 \<not> should_ignore_file (filename entry) pats exts hid \<and>
                 \<not> (\<not> ig \<and> should_ignore fs entry rules)"
  show ?case
  proof (cases "?keep entry")
    case False
    then have "process_directory_loop fs (entry # entries) exts hid ig rules pats w xml st =
               process_directory_loop fs entries exts hid ig rules pats w xml st"
      by auto
    with Cons.IH [of st] False show ?thesis by auto
  next
    case True
    obtain st1 where st1: "process_file fs entry w xml st = Some st1"
      "out st1 = out st @ rendering xml (global_index st) (file_docs fs entry)"
      "global_index st1 = advance xml (global_index st) (file_docs fs entry)"
      using process_file_effect [OF assms] by blast
    from True st1(1) have step:
      "process_directory_loop fs (entry # entries) exts hid ig rules pats w xml st =
       process_directory_loop fs entries exts hid ig rules pats w xml st1"
      by auto
    from Cons.IH [of st1] obtain st' where st':
      "process_directory_loop fs entries exts hid ig rules pats w xml st1 = Some st'"
      "out st' = out st1 @ rendering xml (global_index st1) (concat (map (file_docs fs) (filter ?keep entries)))"
      "global_index st' = advance xml (global_index st1) (concat (map (file_docs fs) (filter ?keep entries)))"
      by blast
    from True step st' st1(2,3) show ?thesis
      by (simp add: rendering_append advance_append)
  qed
qed

lemma process_path_effect:
  assumes "w \<noteq> Null"
  shows "\<exists>st'. process_path fs path exts hid ig rules pats w xml st = Some st' \<and>
           out st' = out st @ rendering xml (global_index st) (path_docs fs path exts hid ig rules pats) \<and>
           global_index st' = advance xml (global_index st) (path_docs fs path exts hid ig rules pats)"
proof -
  consider (regular) "fs_is_regular_file fs path"
    | (directory) "\<not> fs_is_regular_file fs path \<and> fs_is_directory fs path"
    | (neither) "\<not> fs_is_regular_file fs path \<and> \<not> fs_is_directory fs path"
    by blast
  then show ?thesis
  proof cases
    case regular
    then show ?thesis
      using process_file_effect [OF assms, of fs path xml st]
      by (simp add: process_path_def path_docs_def)
  next
    case directory
    then show ?thesis
      using process_directory_loop_effect [OF assms, of fs "recursive_directory_iterator fs path" exts hid ig rules pats xml st]
      by (simp add: process_path_def path_docs_def process_directory_def directory_docs_def)
  next
    case neither
    then show ?thesis
      by (simp add: process_path_def path_docs_def rendering_Nil advance_Nil)
  qed
qed

lemma run_rendering_xml:
  "run_rendering True first i rds = concat (map render_item (root_items first i rds))"
  by (induction rds arbitrary: i) (auto simp: rendering_def advance_def)

lemma run_rendering_plain:
  "run_rendering False first i rds = concat (map plain_document (concat (map snd rds)))"
  by (induction rds arbitrary: i) (auto simp: rendering_def advance_def)

lemma main_loop_effect:
  assumes "w \<noteq> Null"
  shows "\<exists>r st'. main_loop fs opts all_paths w ps rules st = Some r \<and>
           (if list_all (fs_exists fs) ps then (\<exists>rules'. r = Fell_through rules' st')
            else r = Returned 1 st') \<and>
           out st' = out st @ run_rendering (claude_xml opts) (all_paths ! 0) (global_index st)
                               (run_docs fs opts rules ps)"
proof (induction ps arbitrary: rules st)
  case Nil
  show ?case by simp
next
  case (Cons path rest)
  show ?case
  proof (cases "fs_exists fs path")
    case False
    then show ?thesis by (simp add: printe_def)
  next
    case True
    define rules1 where "rules1 = (if \<not> ignore_gitignore opts
                         then rules @ read_gitignore fs (parent_path path) else rules)"
    define hdr where "hdr = (if claude_xml opts \<and> path = all_paths ! 0 then ''<documents>\<newline>'' else [])"
    define st1 where "st1 = st\<lparr>out := out st @ hdr\<rparr>"
    define ds where "ds = path_docs fs path (extensions opts) (include_hidden opts)
                    (ignore_gitignore opts) rules1 (ignore_patterns opts)"
    have open_tag: "(if claude_xml opts \<and> path = all_paths ! 0
                  then fprintf w ''<documents>\<newline>'' st else Some st) = Some st1"
      using assms by (simp add: fprintf_open st1_def hdr_def)
    obtain st2 where st2:
      "process_path fs path (extensions opts) (include_hidden opts)
          (ignore_gitignore opts) rules1 (ignore_patterns opts) w (claude_xml opts) st1 = Some st2"
      "out st2 = out st1 @ rendering (claude_xml opts) (global_index st1) ds"
      "global_index st2 = advance (claude_xml opts) (global_index st1) ds"
      unfolding ds_def using process_path_effect [OF assms] by blast
    have step: "main_loop fs opts all_paths w (path # rest) rules st =
                main_loop fs opts all_paths w rest rules1 st2"
      using True open_tag st2(1) by (simp add: rules1_def Let_def)
    have docs: "run_docs fs opts rules (path # rest) = (path, ds) # run_docs fs opts rules1 rest"
      using True by (simp add: rules1_def ds_def Let_def)
    from Cons.IH [of rules1 st2] obtain r st' where r:
      "main_loop fs opts all_paths w rest rules1 st2 = Some r"
      "if list_all (fs_exists fs) rest then (\<exists>rules'. r = Fell_through rules' st')
            else r = Returned 1 st'"
      "out st' = out st2 @ run_rendering (claude_xml opts) (all_paths ! 0) (global_index st2)
                               (run_docs fs opts rules1 rest)"
      by blast
    have "out st' = out st @ run_rendering (claude_xml opts) (all_paths ! 0) (global_index st)
                               (run_docs fs opts rules (path # rest))"
      using r(3) st2(2,3) unfolding docs st1_def hdr_def by simp
    with step r(1,2) True show ?thesis by auto
  qed
qed

lemma main_effect:
  assumes "writer_opens fs opts"
  shows "\<exists>st. main fs opts = Some (if list_all (fs_exists fs) (given_paths opts) then 0 else 1, st) \<and>
           out st = run_rendering (claude_xml opts) (given_paths opts ! 0) 1
                      (run_docs fs opts [] (given_paths opts)) @
                    (if claude_xml opts \<and> list_all (fs_exists fs) (given_paths opts)
                     then ''</documents>\<newline>'' else [])"
proof -
  define w where "w = (if output_file opts \<noteq> []
               then (if fopen_w fs (c_str (output_file opts)) then File (output_file opts) else Null)
               else Stdout)"
  have w: "w \<noteq> Null" using assms by (simp add: w_def writer_opens_def)
  from main_loop_effect [OF w, of fs opts "given_paths opts" "given_paths opts" "[]" initial_state]
  obtain r st' where r:
    "main_loop fs opts (given_paths opts) w (given_paths opts) [] initial_state = Some r"
    "if list_all (fs_exists fs) (given_paths opts) then (\<exists>rules'. r = Fell_through rules' st')
            else r = Returned 1 st'"
    "out st' = run_rendering (claude_xml opts) (given_paths opts ! 0) 1
                               (run_docs fs opts [] (given_paths opts))"
    by (auto simp: initial_state_def)
  have m: "main fs opts = (case main_loop fs opts (given_paths opts) w (given_paths opts) [] initial_state of
           None \<Rightarrow> None
         | Some (Returned code st) \<Rightarrow> Some (code, st)
         | Some (Fell_through gitignore_rules st) \<Rightarrow> do {
             st1 \<leftarrow> (if claude_xml opts then fprintf w ''</documents>\<newline>'' st else Some st);
             Some (0, st1)
           })"
    by (simp only: main_def given_paths_def w_def Let_def)
  show ?thesis
  proof (cases "list_all (fs_exists fs) (given_paths opts)")
    case True
    with r(2) obtain rules' where "r = Fell_through rules' st'" by auto
    with m r(1,3) True w show ?thesis
      by (cases "claude_xml opts") (simp_all add: fprintf_open)
  next
    case False
    with r(2) have "r = Returned 1 st'" by simp
    with m r(1,3) False show ?thesis by simp
  qed
qed

lemma main_plain_output:
  assumes "writer_opens fs opts" and "\<not> claude_xml opts"
  shows "\<exists>st. main fs opts = Some (if list_all (fs_exists fs) (given_paths opts) then 0 else 1, st) \<and>
           out st = concat (map plain_document (emitted fs opts))"
  using main_effect [OF assms(1)] assms(2)
  by (simp add: run_rendering_plain emitted_def)

lemma main_xml_output:
  assumes "writer_opens fs opts" and "claude_xml opts"
  shows "\<exists>st. main fs opts = Some (if list_all (fs_exists fs) (given_paths opts) then 0 else 1, st) \<and>
           out st = concat (map render_item (xml_items fs opts))"
  using main_effect [OF assms(1)] assms(2)
  by (auto simp: run_rendering_xml xml_items_def)

lemma process_file_empty:
  "fopen_r fs (c_str path) = Some [] \<Longrightarrow> process_file fs path w xml st = Some st"
  by (simp add: process_file_def read_file_content_def)

subsection \<open>The emitted files\<close>

lemma file_docs_content:
  "d \<in> set (file_docs fs path) \<Longrightarrow> fopen_r fs (c_str (fst d)) = Some (snd d) \<and> snd d \<noteq> []"
  by (auto simp: file_docs_def split: option.splits if_splits)

lemma path_docs_content:
  "d \<in> set (path_docs fs path exts hid ig rules pats) \<Longrightarrow>
   fopen_r fs (c_str (fst d)) = Some (snd d) \<and> snd d \<noteq> []"
  by (auto simp: path_docs_def directory_docs_def split: if_splits dest: file_docs_content)

lemma run_docs_content:
  "(path, ds) \<in> set (run_docs fs opts rules ps) \<Longrightarrow> d \<in> set ds \<Longrightarrow>
   fopen_r fs (c_str (fst d)) = Some (snd d) \<and> snd d \<noteq> []"
proof (induction ps arbitrary: rules)
  case Nil
  then show ?case by simp
next
  case (Cons p ps)
  show ?case
  proof (cases "fs_exists fs p")
    case False
    with Cons.prems show ?thesis by simp
  next
    case True
    with Cons.prems(1) consider
      (here) "ds = path_docs fs p (extensions opts) (include_hidden opts) (ignore_gitignore opts)
                (if \<not> ignore_gitignore opts then rules @ read_gitignore fs (parent_path p) else rules)
                (ignore_patterns opts)"
      | (later) "(path, ds) \<in> set (run_docs fs opts
                (if \<not> ignore_gitignore opts then rules @ read_gitignore fs (parent_path p) else rules) ps)"
      by (auto simp: Let_def split: if_splits)
    then show ?thesis
    proof cases
      case here
      with Cons.prems(2) show ?thesis by (auto dest: path_docs_content)
    next
      case later
      from Cons.IH [OF later Cons.prems(2)] show ?thesis .
    qed
  qed
qed

lemma emitted_content:
  "d \<in> set (emitted fs opts) \<Longrightarrow> fopen_r fs (c_str (fst d)) = Some (snd d) \<and> snd d \<noteq> []"
  by (auto simp: emitted_def dest: run_docs_content)

subsection \<open>Numbering\<close>

lemma sint_index: "k < 2147483648 \<Longrightarrow> sint (of_nat k :: 32 word) = int k"
proof -
  assume k: "k < 2147483648"
  have "sint (of_nat k :: 32 word) = signed_take_bit 31 (int k)"
    by (simp add: signed_of_nat)
  also have "\<dots> = int k"
    using k by (intro signed_take_bit_int_eq_self) simp_all
  finally show ?thesis .
qed

lemma numbered_docs_append:
  "numbered_docs (a @ b) = numbered_docs a @ numbered_docs b"
  by (induction a rule: numbered_docs.induct) simp_all

lemma numbered_doc_items:
  "k + length ds \<le> 2147483648 \<Longrightarrow>
   numbered_docs (doc_items (of_nat k) ds) = zip (map int [k..<k + length ds]) ds"
proof (induction ds arbitrary: k)
  case Nil
  show ?case by simp
next
  case (Cons d ds)
  from Cons.prems have k: "k < 2147483648" and k': "Suc k + length ds \<le> 2147483648" by simp_all
  have "doc_items (of_nat k) (d # ds) = Doc (int k) d # doc_items (of_nat (Suc k)) ds"
    using sint_index [OF k] by (simp add: add.commute)
  moreover have "[k..<k + length (d # ds)] = k # [Suc k..<Suc k + length ds]"
    by (simp add: upt_rec)
  ultimately show ?case using Cons.IH [OF k'] by simp
qed

lemma numbered_root_items:
  "numbered_docs (root_items first i rds) = numbered_docs (doc_items i (concat (map snd rds)))"
  by (induction rds arbitrary: i) (auto simp: doc_items_append numbered_docs_append)

lemma numbered_xml_items:
  assumes "length (emitted fs opts) < 2147483647"
  shows "numbered_docs (xml_items fs opts) =
           zip (map int [1..<Suc (length (emitted fs opts))]) (emitted fs opts)"
proof -
  have "numbered_docs (xml_items fs opts) = numbered_docs (doc_items 1 (emitted fs opts))"
    by (simp add: xml_items_def numbered_docs_append numbered_root_items emitted_def)
  also have "\<dots> = numbered_docs (doc_items (of_nat 1) (emitted fs opts))" by simp
  also have "\<dots> = zip (map int [1..<1 + length (emitted fs opts)]) (emitted fs opts)"
    using assms by (intro numbered_doc_items) simp
  finally show ?thesis by simp
qed

section \<open>The loops as quantifiers\<close>

lemma c_str_no_NUL: "NUL \<notin> set s \<Longrightarrow> c_str s = s"
  by (auto simp: c_str_def takeWhile_eq_all_conv)

lemma c_str_subset: "set (c_str s) \<subseteq> set s"
  by (auto simp: c_str_def dest: set_takeWhileD)

lemma should_ignore_iff:
  "should_ignore fs path rules \<longleftrightarrow>
     (\<exists>rule\<in>set rules. fnmatch rule (filename path) \<or>
        (fs_is_directory fs path \<and> fnmatch (filename path @ ''/'') rule))"
  by (induction rules) auto

lemma should_ignore_file_entry:
  "\<not> fs_is_directory fs p \<Longrightarrow>
   should_ignore fs p rules = list_ex (\<lambda>rule. fnmatch rule (filename p)) rules"
  by (induction rules) simp_all

lemma should_ignore_append:
  "should_ignore fs p (rs @ rs') = (should_ignore fs p rs \<or> should_ignore fs p rs')"
  by (induction rs) simp_all

lemma ignore_patterns_loop_iff:
  "ignore_patterns_loop ps f \<longleftrightarrow> (\<exists>p\<in>set ps. fnmatch p f)"
  by (induction ps) auto

lemma compare_eq_suffix:
  "length f \<ge> length e \<and> compare_eq f (length f - length e) (length e) e \<longleftrightarrow> suffix e f"
proof
  assume h: "length f \<ge> length e \<and> compare_eq f (length f - length e) (length e) e"
  then have "drop (length f - length e) f = e"
    by (simp add: compare_eq_def)
  then have "f = take (length f - length e) f @ e"
    by (metis append_take_drop_id)
  then show "suffix e f" by (metis suffixI)
next
  assume "suffix e f"
  then obtain zs where "f = zs @ e" by (auto simp: suffix_def)
  then show "length f \<ge> length e \<and> compare_eq f (length f - length e) (length e) e"
    by (simp add: compare_eq_def)
qed

lemma extensions_loop_iff:
  "extensions_loop es f \<longleftrightarrow> (\<exists>e\<in>set es. suffix e f)"
  by (induction es) (simp_all add: compare_eq_suffix)

lemma at0_period: "at0 f = CHR ''.'' \<longleftrightarrow> prefix ''.'' f"
  by (cases f) (auto simp: at0_def NUL_def)

lemma should_ignore_file_iff:
  "should_ignore_file f pats exts hid \<longleftrightarrow>
     \<not> ((\<not> prefix ''.'' f \<or> hid) \<and> (\<forall>p\<in>set pats. \<not> fnmatch p f) \<and>
        (exts = [] \<or> (\<exists>e\<in>set exts. suffix e f)))"
  by (auto simp: should_ignore_file_def at0_period ignore_patterns_loop_iff extensions_loop_iff)

lemma read_gitignore_loop_filter:
  "read_gitignore_loop rules lines =
     rules @ filter (\<lambda>l. l \<noteq> [] \<and> hd l \<noteq> CHR ''#'') (map strcspn_cut lines)"
  by (induction lines arbitrary: rules) (simp_all add: Let_def)

section \<open>Paths and patterns\<close>

lemma parent_path_no_slash: "CHR ''/'' \<notin> set root \<Longrightarrow> parent_path root = []"
proof (cases root)
  case Nil
  then show ?thesis by (simp add: parent_path_def)
next
  case (Cons c cs)
  assume n: "CHR ''/'' \<notin> set root"
  then have a: "\<not> list_all (\<lambda>c. c = CHR ''/'') root"
    using Cons by auto
  from n have "dropWhile (\<lambda>c. c \<noteq> CHR ''/'') (rev root) = []"
    by (auto simp: dropWhile_eq_Nil_conv)
  with a show ?thesis by (simp add: parent_path_def)
qed

lemma filename_no_slash: "CHR ''/'' \<notin> set (filename p)"
proof -
  have "\<forall>x\<in>set (takeWhile (\<lambda>c. c \<noteq> CHR ''/'') (rev p)). x \<noteq> CHR ''/''"
    by (auto dest: set_takeWhileD)
  then show ?thesis by (auto simp: filename_def)
qed

lemma bracket_items_closes:
  "bracket_items first p = Some (rs, rest) \<Longrightarrow> \<exists>pre. p = pre @ (False, CHR '']'') # rest"
proof (induction first p arbitrary: rs rest rule: bracket_items.induct)
  case (1 first)
  then show ?case by simp
next
  case (2 first q c)
  then show ?case by (auto split: if_splits)
next
  case (3 first q c q1 d)
  show ?case
  proof (cases "\<not> q \<and> c = CHR '']'' \<and> \<not> first")
    case True
    with 3 show ?thesis by auto
  next
    case False
    with 3(2) obtain rs' where "bracket_items False [(q1, d)] = Some (rs', rest)"
      by (auto split: if_splits)
    from 3(1) [OF False this] obtain pre where "[(q1, d)] = pre @ (False, CHR '']'') # rest" ..
    then have "[(q, c), (q1, d)] = ((q, c) # pre) @ (False, CHR '']'') # rest" by simp
    then show ?thesis ..
  qed
next
  case (4 first q c q1 d q2 hi p)
  show ?case
  proof (cases "\<not> q \<and> c = CHR '']'' \<and> \<not> first")
    case True
    with 4(3) have "(q, c) # (q1, d) # (q2, hi) # p = [] @ (False, CHR '']'') # rest" by auto
    then show ?thesis ..
  next
    case False
    note nc = this
    show ?thesis
    proof (cases "\<not> q1 \<and> d = CHR ''-'' \<and> (q2 \<or> hi \<noteq> CHR '']'')")
      case True
      with nc 4(3) obtain rs' where "bracket_items False p = Some (rs', rest)"
        by (auto split: if_splits)
      from 4(1) [OF nc True this] obtain pre where "p = pre @ (False, CHR '']'') # rest" ..
      then have "(q, c) # (q1, d) # (q2, hi) # p = ((q, c) # (q1, d) # (q2, hi) # pre) @ (False, CHR '']'') # rest"
        by simp
      then show ?thesis ..
    next
      case False
      with nc 4(3) obtain rs' where "bracket_items False ((q1, d) # (q2, hi) # p) = Some (rs', rest)"
        by (auto split: if_splits)
      from 4(2) [OF nc False this] obtain pre where "(q1, d) # (q2, hi) # p = pre @ (False, CHR '']'') # rest" ..
      then have "(q, c) # (q1, d) # (q2, hi) # p = ((q, c) # pre) @ (False, CHR '']'') # rest"
        by simp
      then show ?thesis ..
    qed
  qed
qed

lemma bracket_closes:
  "bracket p = Some (neg, rs, rest) \<Longrightarrow> \<exists>pre. p = pre @ (False, CHR '']'') # rest"
proof (cases p)
  case Nil
  assume "bracket p = Some (neg, rs, rest)"
  with Nil show ?thesis by (simp add: bracket_def)
next
  case (Cons a p')
  assume b: "bracket p = Some (neg, rs, rest)"
  obtain q c where a: "a = (q, c)" by (cases a)
  show ?thesis
  proof (cases "\<not> q \<and> (c = CHR ''!'' \<or> c = CHR ''^'')")
    case True
    with b Cons a have "bracket_items True p' = Some (rs, rest)"
      by (auto simp: bracket_def)
    from bracket_items_closes [OF this] obtain pre where "p' = pre @ (False, CHR '']'') # rest" ..
    with Cons have "p = (a # pre) @ (False, CHR '']'') # rest" by simp
    then show ?thesis ..
  next
    case False
    with b Cons a have "bracket_items True p = Some (rs, rest)"
      by (auto simp: bracket_def)
    from bracket_items_closes [OF this] show ?thesis .
  qed
qed

lemma bracket_rest_last:
  assumes "bracket p = Some (neg, rs, rest)" and "snd (last p) = CHR ''/''"
  shows "rest \<noteq> [] \<and> last rest = last p"
proof -
  from bracket_closes [OF assms(1)] obtain pre where p: "p = pre @ (False, CHR '']'') # rest" ..
  show ?thesis
  proof (cases rest)
    case Nil
    with p assms(2) show ?thesis by simp
  next
    case (Cons a as)
    with p show ?thesis by simp
  qed
qed

lemma glob_slash:
  "glob p s \<Longrightarrow> p \<noteq> [] \<Longrightarrow> snd (last p) = CHR ''/'' \<Longrightarrow> CHR ''/'' \<in> set s"
proof (induction p s rule: glob.induct)
  case (1 s)
  then show ?case by simp
next
  case (2 q c p s)
  note g = "2.prems"(1) and l = "2.prems"(3)
  show ?case
  proof (cases "p = []")
    case True
    with l have c: "c = CHR ''/''" by simp
    with g True show ?thesis by (cases s) (auto split: if_splits)
  next
    case False
    note ne = this
    with l have lp: "snd (last p) = CHR ''/''" by simp
    show ?thesis
    proof (cases "\<not> q \<and> c = CHR ''*''")
      case True
      note star = this
      from g star have "glob p s \<or> (\<exists>x s'. s = x # s' \<and> glob ((q, c) # p) s')"
        by (cases s) auto
      then show ?thesis
      proof
        assume "glob p s"
        from "2.IH"(1) [OF star this ne lp] show ?thesis .
      next
        assume "\<exists>x s'. s = x # s' \<and> glob ((q, c) # p) s'"
        then obtain x s' where s: "s = x # s'" and g': "glob ((q, c) # p) s'" by blast
        from "2.IH"(2) [OF star s g' "2.prems"(2) l] s show ?thesis by simp
      qed
    next
      case False
      note nostar = this
      from g nostar obtain x s' where s: "s = x # s'" by (cases s) auto
      show ?thesis
      proof (cases "\<not> q \<and> c = CHR ''?''")
        case True
        with g nostar s have "glob p s'" by auto
        from "2.IH"(3) [OF nostar s True this ne lp] s show ?thesis by simp
      next
        case False
        note noq = this
        show ?thesis
        proof (cases "\<not> q \<and> c = CHR ''[''")
          case True
          note br = this
          show ?thesis
          proof (cases "bracket p")
            case None
            with g nostar noq br s have "glob p s'" by auto
            from "2.IH"(4) [OF nostar s noq br None this ne lp] s show ?thesis by simp
          next
            case (Some t)
            obtain neg rs rest where t: "t = (neg, rs, rest)" by (cases t)
            from Some t have b: "bracket p = Some (neg, rs, rest)" by simp
            with g nostar noq br s have gr: "glob rest s'" by auto
            from bracket_rest_last [OF b lp] have r: "rest \<noteq> []" "snd (last rest) = CHR ''/''"
              using lp by simp_all
            from "2.IH"(5) [OF nostar s noq br Some t [symmetric] refl gr r] s
            show ?thesis by simp
          qed
        next
          case False
          with g nostar noq s have "glob p s'" by auto
          from "2.IH"(6) [OF nostar s noq False this ne lp] s show ?thesis by simp
        qed
      qed
    qed
  qed
qed

lemma unquote_last:
  "unquote s = Some p \<Longrightarrow> s \<noteq> [] \<Longrightarrow> last s = CHR ''/'' \<Longrightarrow> p \<noteq> [] \<and> snd (last p) = CHR ''/''"
proof (induction s arbitrary: p rule: unquote.induct)
  case 1
  then show ?case by simp
next
  case (2 c)
  then show ?case by (auto split: if_splits)
next
  case (3 c d s)
  show ?case
  proof (cases "c = CHR 0x5C")
    case True
    with "3.prems"(1) obtain p' where p': "unquote s = Some p'" and p: "p = (True, d) # p'"
      by auto
    show ?thesis
    proof (cases "s = []")
      case True
      with p' p "3.prems"(3) show ?thesis by simp
    next
      case False
      with "3.prems"(3) have "last s = CHR ''/''" by simp
      from "3.IH"(1) [OF True p' False this] p show ?thesis by simp
    qed
  next
    case False
    with "3.prems"(1) obtain p' where p': "unquote (d # s) = Some p'" and p: "p = (False, c) # p'"
      by auto
    from "3.prems"(3) have "last (d # s) = CHR ''/''" by simp
    from "3.IH"(2) [OF False p' _ this] p show ?thesis by simp
  qed
qed

lemma fnmatch_directory_rule:
  assumes "NUL \<notin> set d"
  shows "\<not> fnmatch (d @ ''/'') (filename p)"
proof
  assume m: "fnmatch (d @ ''/'') (filename p)"
  have "NUL \<notin> set (d @ ''/'')" using assms by (simp add: NUL_def)
  then have cs: "c_str (d @ ''/'') = d @ ''/''" by (rule c_str_no_NUL)
  from m cs obtain pat where u: "unquote (d @ ''/'') = Some pat" and g: "glob pat (c_str (filename p))"
    by (auto simp: fnmatch_def split: option.splits)
  from unquote_last [OF u] have "pat \<noteq> []" "snd (last pat) = CHR ''/''" by simp_all
  from glob_slash [OF g this] have "CHR ''/'' \<in> set (c_str (filename p))" .
  with c_str_subset have "CHR ''/'' \<in> set (filename p)" by blast
  with filename_no_slash show False by blast
qed

section \<open>Splitting at the delimiter\<close>

lemma prefix_of_longer:
  assumes "prefix d (a @ rest)" and "length d \<le> length a"
  shows "prefix d a"
proof -
  from assms(1) have "prefix d a \<or> (\<exists>us. d = a @ us \<and> prefix us rest)"
    by (simp add: prefix_append)
  then show ?thesis
  proof
    assume "prefix d a" then show ?thesis .
  next
    assume "\<exists>us. d = a @ us \<and> prefix us rest"
    then obtain us where "d = a @ us" by blast
    with assms(2) have "us = []" by (cases us) auto
    with \<open>d = a @ us\<close> show ?thesis by simp
  qed
qed

lemma split_on_piece:
  assumes "d \<noteq> []" and "\<forall>k<length s. \<not> prefix d (drop k (s @ d))"
  shows "split_on d (s @ d @ rest) = s # split_on d rest"
  using assms(2)
proof (induction s)
  case Nil
  have "split_on d (d @ rest) = [] # split_on d (drop (length d) (d @ rest))"
    using assms(1) by (subst split_on.simps) simp
  then show ?case by simp
next
  case (Cons x xs)
  from Cons.prems have n0: "\<not> prefix d ((x # xs) @ d)" by fastforce
  have np: "\<not> prefix d ((x # xs) @ d @ rest)"
  proof
    assume "prefix d ((x # xs) @ d @ rest)"
    then have "prefix d (((x # xs) @ d) @ rest)" by simp
    then have "prefix d ((x # xs) @ d)" by (rule prefix_of_longer) simp
    with n0 show False ..
  qed
  have "\<forall>k<length xs. \<not> prefix d (drop k (xs @ d))"
  proof (intro allI impI)
    fix k assume "k < length xs"
    then have "Suc k < length (x # xs)" by simp
    with Cons.prems have "\<not> prefix d (drop (Suc k) ((x # xs) @ d))" by blast
    then show "\<not> prefix d (drop k (xs @ d))" by simp
  qed
  from Cons.IH [OF this] have ih: "split_on d (xs @ d @ rest) = xs # split_on d rest" .
  have "split_on d ((x # xs) @ d @ rest) =
        (case split_on d (tl ((x # xs) @ d @ rest)) of
           [] \<Rightarrow> [[hd ((x # xs) @ d @ rest)]]
         | piece # pieces \<Rightarrow> (hd ((x # xs) @ d @ rest) # piece) # pieces)"
    using assms(1) np by (subst split_on.simps) simp
  with ih show ?case by simp
qed

lemma delimiter_first_at_end:
  assumes "\<not> sublist delimiter s" and "\<not> suffix ''\<newline>---'' s"
  shows "\<forall>k<length s. \<not> prefix delimiter (drop k (s @ delimiter))"
proof (intro allI impI notI)
  fix k assume k: "k < length s" and p: "prefix delimiter (drop k (s @ delimiter))"
  define t where "t = drop k s"
  have s: "s = take k s @ t" by (simp add: t_def)
  from k have tne: "t \<noteq> []" by (simp add: t_def)
  from p k have pt: "prefix delimiter (t @ delimiter)" by (simp add: t_def)
  have nsub: "\<not> prefix delimiter t"
  proof
    assume "prefix delimiter t"
    then obtain r where "t = delimiter @ r" by (auto simp: prefix_def)
    with s have "s = take k s @ delimiter @ r" by simp
    then have "sublist delimiter s" by (metis sublist_appendI)
    with assms(1) show False ..
  qed
  have nsuf: "t \<noteq> ''\<newline>---''"
  proof
    assume "t = ''\<newline>---''"
    with s have "s = take k s @ ''\<newline>---''" by simp
    then have "suffix ''\<newline>---'' s" by (metis suffixI)
    with assms(2) show False ..
  qed
  from tne obtain a t1 where t1: "t = a # t1" by (cases t) auto
  show False
  proof (cases t1)
    case Nil
    with t1 pt show False by (simp add: delimiter_def)
  next
    case (Cons b t2)
    note c1 = this
    show False
    proof (cases t2)
      case Nil
      with t1 c1 pt show False by (simp add: delimiter_def)
    next
      case (Cons c t3)
      note c2 = this
      show False
      proof (cases t3)
        case Nil
        with t1 c1 c2 pt show False by (simp add: delimiter_def)
      next
        case (Cons e t4)
        note c3 = this
        show False
        proof (cases t4)
          case Nil
          with t1 c1 c2 c3 pt nsuf show False by (auto simp: delimiter_def)
        next
          case (Cons f t5)
          with t1 c1 c2 c3 pt have "prefix delimiter t" by (auto simp: delimiter_def)
          with nsub show False ..
        qed
      qed
    qed
  qed
qed

lemma split_on_plain_documents:
  assumes "\<forall>d\<in>set docs. splits_cleanly (fst d) \<and> splits_cleanly (snd d)"
  shows "split_on delimiter (concat (map plain_document docs)) =
           concat (map (\<lambda>d. [fst d, snd d]) docs) @ [[]]"
  using assms
proof (induction docs)
  case Nil
  show ?case by (subst split_on.simps) (simp add: delimiter_def)
next
  case (Cons d docs)
  let ?rest = "concat (map plain_document docs)"
  from Cons.prems have p: "splits_cleanly (fst d)" and c: "splits_cleanly (snd d)" by simp_all
  have ne: "delimiter \<noteq> []" by (simp add: delimiter_def)
  from p have pc: "c_str (fst d) = fst d" by (simp add: splits_cleanly_def c_str_no_NUL)
  from c have cc: "c_str (snd d) = snd d" by (simp add: splits_cleanly_def c_str_no_NUL)
  have doc: "plain_document d = fst d @ delimiter @ snd d @ delimiter"
    by (simp add: plain_document_def pc cc delimiter_def)
  from p have fp: "\<forall>k<length (fst d). \<not> prefix delimiter (drop k (fst d @ delimiter))"
    by (intro delimiter_first_at_end) (simp_all add: splits_cleanly_def)
  from c have fc: "\<forall>k<length (snd d). \<not> prefix delimiter (drop k (snd d @ delimiter))"
    by (intro delimiter_first_at_end) (simp_all add: splits_cleanly_def)
  have "split_on delimiter (fst d @ delimiter @ (snd d @ delimiter @ ?rest)) =
        fst d # split_on delimiter (snd d @ delimiter @ ?rest)"
    by (rule split_on_piece [OF ne fp])
  also have "split_on delimiter (snd d @ delimiter @ ?rest) = snd d # split_on delimiter ?rest"
    by (rule split_on_piece [OF ne fc])
  finally have "split_on delimiter (plain_document d @ ?rest) =
                fst d # snd d # split_on delimiter ?rest"
    by (simp add: doc)
  with Cons.IH Cons.prems show ?case by simp
qed

section \<open>Claims\<close>

text \<open>
  C1. A file that the directory iteration yields is admitted, that is handed to
  \<open>process_file\<close>, exactly when all four checks pass: its filename does not start with a
  period or hidden files are included; its filename matches none of the ignore patterns;
  gitignore rules are not honoured or the rule set does not match it; and the extension
  list is empty or the filename ends with one of the extensions. Otherwise the loop
  goes on to the next entry without touching it. For such a file the rule set matches
  exactly when one of its rules matches the filename.
\<close>

theorem directory_candidate_admitted_iff_all_four_checks:
  assumes "\<not> fs_is_directory fs entry"
  shows "process_directory_loop fs (entry # entries) exts hid ig rules pats w xml st =
     (if (\<not> prefix ''.'' (filename entry) \<or> hid) \<and>
         (\<forall>p\<in>set pats. \<not> fnmatch p (filename entry)) \<and>
         (ig \<or> \<not> should_ignore fs entry rules) \<and>
         (exts = [] \<or> (\<exists>e\<in>set exts. suffix e (filename entry)))
      then do {
        st1 \<leftarrow> process_file fs entry w xml st;
        process_directory_loop fs entries exts hid ig rules pats w xml st1
      }
      else process_directory_loop fs entries exts hid ig rules pats w xml st) \<and>
     should_ignore fs entry rules = (\<exists>rule\<in>set rules. fnmatch rule (filename entry))"
proof -
  let ?checks = "(\<not> prefix ''.'' (filename entry) \<or> hid) \<and>
         (\<forall>p\<in>set pats. \<not> fnmatch p (filename entry)) \<and>
         (ig \<or> \<not> should_ignore fs entry rules) \<and>
         (exts = [] \<or> (\<exists>e\<in>set exts. suffix e (filename entry)))"
  have "?checks \<longleftrightarrow> \<not> should_ignore_file (filename entry) pats exts hid \<and>
                      \<not> (\<not> ig \<and> should_ignore fs entry rules)"
    unfolding should_ignore_file_iff by blast
  then have a: "process_directory_loop fs (entry # entries) exts hid ig rules pats w xml st =
     (if ?checks
      then do {
        st1 \<leftarrow> process_file fs entry w xml st;
        process_directory_loop fs entries exts hid ig rules pats w xml st1
      }
      else process_directory_loop fs entries exts hid ig rules pats w xml st)"
    using assms by (simp add: Let_def)
  have b: "should_ignore fs entry rules = (\<exists>rule\<in>set rules. fnmatch rule (filename entry))"
    using assms by (simp add: should_ignore_iff)
  from a b show ?thesis by (rule conjI)
qed

theorem directory_candidate_admitted_witness:
  "\<not> fs_is_directory tree_fs ''proj/a.txt'' \<and>
   process_directory_loop tree_fs [''proj/a.txt''] [''.txt''] False False [''build/''] [''*.log'']
     Stdout False initial_state =
   Some (initial_state\<lparr>out := ''proj/a.txt\<newline>---\<newline>hi\<newline>---\<newline>''\<rparr>) \<and>
   \<not> fs_is_directory tree_fs ''proj/.hidden'' \<and>
   process_directory_loop tree_fs [''proj/.hidden''] [] False False [] []
     Stdout False initial_state = Some initial_state"
proof -
  have d: "\<not> fs_is_directory tree_fs ''proj/a.txt''" by code_simp
  have c: "(\<not> prefix ''.'' (filename ''proj/a.txt'') \<or> False) \<and>
         (\<forall>p\<in>set [''*.log'']. \<not> fnmatch p (filename ''proj/a.txt'')) \<and>
         (False \<or> \<not> should_ignore tree_fs ''proj/a.txt'' [''build/'']) \<and>
         ([''.txt''] = [] \<or> (\<exists>e\<in>set [''.txt'']. suffix e (filename ''proj/a.txt'')))"
    by code_simp
  have r: "do {
        st1 \<leftarrow> process_file tree_fs ''proj/a.txt'' Stdout False initial_state;
        process_directory_loop tree_fs [] [''.txt''] False False [''build/''] [''*.log''] Stdout False st1
      } = Some (initial_state\<lparr>out := ''proj/a.txt\<newline>---\<newline>hi\<newline>---\<newline>''\<rparr>)"
    by code_simp
  note t = directory_candidate_admitted_iff_all_four_checks [OF d, of "[]" "[''.txt'']" False False "[''build/'']" "[''*.log'']" Stdout False initial_state,
                  THEN conjunct1]
  from trans [OF trans [OF t if_P [OF c]] r]
  have admitted: "process_directory_loop tree_fs [''proj/a.txt''] [''.txt''] False False
     [''build/''] [''*.log''] Stdout False initial_state =
     Some (initial_state\<lparr>out := ''proj/a.txt\<newline>---\<newline>hi\<newline>---\<newline>''\<rparr>)" .
  have d': "\<not> fs_is_directory tree_fs ''proj/.hidden''" by code_simp
  have c': "\<not> ((\<not> prefix ''.'' (filename ''proj/.hidden'') \<or> False) \<and>
         (\<forall>p\<in>set []. \<not> fnmatch p (filename ''proj/.hidden'')) \<and>
         (False \<or> \<not> should_ignore tree_fs ''proj/.hidden'' []) \<and>
         ([] = ([] :: string list) \<or> (\<exists>e\<in>set []. suffix e (filename ''proj/.hidden''))))"
    by code_simp
  have r': "process_directory_loop tree_fs [] [] False False [] [] Stdout False initial_state =
            Some initial_state" by code_simp
  note t' = directory_candidate_admitted_iff_all_four_checks [OF d', of "[]" "[]" False False "[]" "[]" Stdout False initial_state,
                  THEN conjunct1]
  from trans [OF trans [OF t' if_not_P [OF c']] r']
  have rejected: "process_directory_loop tree_fs [''proj/.hidden''] [] False False [] []
     Stdout False initial_state = Some initial_state" .
  from d admitted d' rejected show ?thesis by (intro conjI)
qed


text \<open>
  C3, as stated: every blank line of a gitignore file is kept as an empty rule. The rule
  file of the example has a blank third line, which \<open>getline\<close> hands out as a lone
  newline and the cut turns into the empty string; the rules read from the file are the
  two patterns only, and the empty string is not among them.
\<close>

theorem read_gitignore_blank_line_counterexample:
  "fopen_r tree_fs ''/.gitignore'' = Some (''# rules\<newline>build/\<newline>\<newline>*.tmp'' @ [CR, LF]) \<and>
   getlines [] (''# rules\<newline>build/\<newline>\<newline>*.tmp'' @ [CR, LF]) =
     [''# rules\<newline>'', ''build/\<newline>'', ''\<newline>'', ''*.tmp'' @ [CR, LF]] \<and>
   strcspn_cut ''\<newline>'' = [] \<and>
   read_gitignore tree_fs [] = [''build/'', ''*.tmp''] \<and>
   [] \<notin> set (read_gitignore tree_fs [])"
  by code_simp

text \<open>
  C3, amended. The rules read from a gitignore file that opens are its lines, each cut
  at its first carriage return or newline, in file order, without the lines that are empty
  after the cut and without the lines whose first character is \<open>#\<close>.
\<close>

theorem read_gitignore_keeps_nonblank_noncomment_lines:
  assumes "fopen_r fs (c_str (dir @ ''/.gitignore'')) = Some bytes"
  shows "read_gitignore fs dir =
           filter (\<lambda>l. l \<noteq> [] \<and> hd l \<noteq> CHR ''#'') (map strcspn_cut (getlines [] bytes))"
  using assms by (simp add: read_gitignore_def read_gitignore_loop_filter)

theorem read_gitignore_keeps_witness:
  "read_gitignore tree_fs [] = [''build/'', ''*.tmp'']"
proof -
  have h: "fopen_r tree_fs (c_str ([] @ ''/.gitignore'')) =
           Some (''# rules\<newline>build/\<newline>\<newline>*.tmp'' @ [CR, LF])"
    by code_simp
  have e: "filter (\<lambda>l. l \<noteq> [] \<and> hd l \<noteq> CHR ''#'')
          (map strcspn_cut (getlines [] (''# rules\<newline>build/\<newline>\<newline>*.tmp'' @ [CR, LF]))) =
        [''build/'', ''*.tmp'']"
    by code_simp
  from read_gitignore_keeps_nonblank_noncomment_lines [OF h] e show ?thesis
    by (rule trans)
qed

text \<open>
  C4. In XML mode the opening tag is written before every root that equals the first
  path, not once: a run over the same (empty) directory given twice writes
  \<open><documents>\<close> twice and \<open></documents>\<close> once.
\<close>

theorem repeated_first_root_opens_envelope_twice:
  "main tree_fs (run_options [''empty'', ''empty''] True []) =
     Some (0, initial_state\<lparr>out := ''<documents>\<newline><documents>\<newline></documents>\<newline>''\<rparr>)"
  by code_simp

text \<open>
  C5. In XML mode, with a writer that opens and fewer documents than the largest \<open>int\<close>,
  the run ends with status 0 when every root exists and 1 otherwise, and its output is
  the rendering of a sequence of envelope tags and documents in which the documents, in
  the order written, are the emitted files numbered 1, 2, 3, ... across all roots. Every
  emitted file has the content that was read from it, which is not empty; a file whose
  content is empty leaves output and counter as they were.
\<close>

theorem xml_document_indices_count_from_one:
  assumes "writer_opens fs opts" and "claude_xml opts"
    and "length (emitted fs opts) < 2147483647"
  shows "(\<exists>st. main fs opts = Some (if list_all (fs_exists fs) (given_paths opts) then 0 else 1, st) \<and>
            out st = concat (map render_item (xml_items fs opts))) \<and>
         numbered_docs (xml_items fs opts) =
           zip (map int [1..<Suc (length (emitted fs opts))]) (emitted fs opts) \<and>
         (\<forall>d\<in>set (emitted fs opts). fopen_r fs (c_str (fst d)) = Some (snd d) \<and> snd d \<noteq> []) \<and>
         (\<forall>path w st. fopen_r fs (c_str path) = Some [] \<longrightarrow> process_file fs path w True st = Some st)"
  using main_xml_output [OF assms(1,2)] numbered_xml_items [OF assms(3)]
  by (auto dest: emitted_content simp: process_file_empty)

theorem xml_document_indices_witness:
  "numbered_docs (xml_items tree_fs (run_options [''proj'', ''notes.md''] True [])) =
     [(1, (''proj/a.txt'', ''hi'')), (2, (''proj/build/out.txt'', ''o'')),
      (3, (''notes.md'', ''a\<newline>---\<newline>b''))]"
proof -
  have a: "writer_opens tree_fs (run_options [''proj'', ''notes.md''] True [])" by code_simp
  have b: "claude_xml (run_options [''proj'', ''notes.md''] True [])" by code_simp
  have e: "emitted tree_fs (run_options [''proj'', ''notes.md''] True []) =
           [(''proj/a.txt'', ''hi''), (''proj/build/out.txt'', ''o''),
            (''notes.md'', ''a\<newline>---\<newline>b'')]" by code_simp
  have c: "length (emitted tree_fs (run_options [''proj'', ''notes.md''] True [])) < 2147483647"
    unfolding e by simp
  note t = xml_document_indices_count_from_one [OF a b c]
  from t [THEN conjunct2, THEN conjunct1]
  have n: "numbered_docs (xml_items tree_fs (run_options [''proj'', ''notes.md''] True [])) =
        zip (map int [1..<Suc (length (emitted tree_fs (run_options [''proj'', ''notes.md''] True [])))])
            (emitted tree_fs (run_options [''proj'', ''notes.md''] True []))" .
  have r: "zip (map int [1..<Suc (length (emitted tree_fs (run_options [''proj'', ''notes.md''] True [])))])
            (emitted tree_fs (run_options [''proj'', ''notes.md''] True [])) =
        [(1, (''proj/a.txt'', ''hi'')), (2, (''proj/build/out.txt'', ''o'')),
         (3, (''notes.md'', ''a\<newline>---\<newline>b''))]"
    unfolding e by code_simp
  from n r show ?thesis by (rule trans)
qed

text \<open>
  C6. A root that is a regular file goes straight to \<open>process_file\<close>: when its content
  is not empty, \<open>process_path\<close> does exactly what \<open>print_path\<close> does with that content,
  whatever the extension list, the hidden-file flag, the gitignore flag, the rules and the
  ignore patterns are; with a writer that is not null, the document is appended to the
  output.
\<close>

theorem file_root_bypasses_all_filters:
  assumes "fs_is_regular_file fs root"
    and "fopen_r fs (c_str root) = Some content"
    and "content \<noteq> []"
  shows "process_path fs root exts hid ig rules pats w xml st = print_path w root content xml st \<and>
         (w = Null \<or> (\<exists>st'. process_path fs root exts hid ig rules pats w xml st = Some st' \<and>
            out st' = out st @ (if xml then xml_document (sint (global_index st)) (root, content)
                                else plain_document (root, content))))"
  using assms
  by (auto simp: process_path_def process_file_def read_file_content_def print_path_open)

theorem file_root_bypasses_witness:
  "fs_is_regular_file tree_fs ''proj/.hidden'' \<and>
   process_path tree_fs ''proj/.hidden'' [''.txt''] False False [''.*''] [''.hidden''] Stdout False initial_state =
     Some (initial_state\<lparr>out := ''proj/.hidden\<newline>---\<newline>x\<newline>---\<newline>''\<rparr>)"
proof -
  have a: "fs_is_regular_file tree_fs ''proj/.hidden''" by code_simp
  have b: "fopen_r tree_fs (c_str ''proj/.hidden'') = Some ''x''" by code_simp
  have c: "''x'' \<noteq> []" by simp
  have e: "print_path Stdout ''proj/.hidden'' ''x'' False initial_state =
        Some (initial_state\<lparr>out := ''proj/.hidden\<newline>---\<newline>x\<newline>---\<newline>''\<rparr>)"
    by code_simp
  note t = file_root_bypasses_all_filters [OF a b c, of "[''.txt'']" False False "[''.*'']"
             "[''.hidden'']" Stdout False initial_state]
  from t [THEN conjunct1] e
  have "process_path tree_fs ''proj/.hidden'' [''.txt''] False False [''.*''] [''.hidden''] Stdout False initial_state =
     Some (initial_state\<lparr>out := ''proj/.hidden\<newline>---\<newline>x\<newline>---\<newline>''\<rparr>)"
    by (rule trans)
  with a show ?thesis by (intro conjI)
qed

text \<open>
  C7. \<open>main\<close> never tests the result of \<open>fopen(output_file, "w")\<close>. With an output file
  that cannot be opened, a run that has nothing to write ends with status 0 and no
  message on \<open>stderr\<close>; a run that has a document to write calls \<open>fprintf\<close> on the null
  stream.
\<close>

theorem unopened_output_file_is_not_detected:
  "\<not> fopen_w tree_fs (c_str ''/nowhere/out.txt'') \<and>
   main tree_fs (run_options [''empty''] False ''/nowhere/out.txt'') = Some (0, initial_state) \<and>
   main tree_fs (run_options [''proj''] False ''/nowhere/out.txt'') = None"
  by code_simp

text \<open>
  C8, as stated: splitting the plain output at the delimiter gives back every path and
  content. The notes file of the example holds a line of three dashes; the run over it
  emits one file, and the split of its output has the content in two pieces.
\<close>

theorem plain_output_split_counterexample:
  "emitted tree_fs (run_options [''notes.md''] False []) = [(''notes.md'', ''a\<newline>---\<newline>b'')] \<and>
   map_option (split_on delimiter \<circ> out \<circ> snd) (main tree_fs (run_options [''notes.md''] False [])) =
     Some [''notes.md'', ''a'', ''b'', []]"
  by code_simp

text \<open>
  C8, amended. In plain mode, with a writer that opens, when no emitted path or content
  holds a NUL byte or the delimiter, or ends in a newline followed by three dashes, the
  split of the whole output at the delimiter is, for each emitted file in the order
  written, its path and then its content, followed by one empty piece.
\<close>

theorem plain_output_splits_into_paths_and_contents:
  assumes "writer_opens fs opts" and "\<not> claude_xml opts"
    and "\<forall>d\<in>set (emitted fs opts). splits_cleanly (fst d) \<and> splits_cleanly (snd d)"
  shows "\<exists>st. main fs opts = Some (if list_all (fs_exists fs) (given_paths opts) then 0 else 1, st) \<and>
           out st = concat (map plain_document (emitted fs opts)) \<and>
           split_on delimiter (out st) = concat (map (\<lambda>d. [fst d, snd d]) (emitted fs opts)) @ [[]]"
proof -
  from main_plain_output [OF assms(1,2)] obtain st where
    st: "main fs opts = Some (if list_all (fs_exists fs) (given_paths opts) then 0 else 1, st)"
        "out st = concat (map plain_document (emitted fs opts))"
    by blast
  from split_on_plain_documents [OF assms(3)] st(2)
  have "split_on delimiter (out st) = concat (map (\<lambda>d. [fst d, snd d]) (emitted fs opts)) @ [[]]"
    by simp
  with st show ?thesis by blast
qed

theorem plain_output_splits_witness:
  "map_option (split_on delimiter \<circ> out \<circ> snd) (main tree_fs (run_options [''proj''] False [])) =
     Some [''proj/a.txt'', ''hi'', ''proj/build/out.txt'', ''o'', []]"
proof -
  have a: "writer_opens tree_fs (run_options [''proj''] False [])" by code_simp
  have b: "\<not> claude_xml (run_options [''proj''] False [])" by code_simp
  have e: "emitted tree_fs (run_options [''proj''] False []) =
           [(''proj/a.txt'', ''hi''), (''proj/build/out.txt'', ''o'')]" by code_simp
  have c: "\<forall>d\<in>set (emitted tree_fs (run_options [''proj''] False [])).
             splits_cleanly (fst d) \<and> splits_cleanly (snd d)"
    unfolding e by code_simp
  from plain_output_splits_into_paths_and_contents [OF a b c] obtain st where
    st: "main tree_fs (run_options [''proj''] False []) =
           Some (if list_all (fs_exists tree_fs) (given_paths (run_options [''proj''] False [])) then 0 else 1, st)"
        "split_on delimiter (out st) =
           concat (map (\<lambda>d. [fst d, snd d]) (emitted tree_fs (run_options [''proj''] False []))) @ [[]]"
    by blast
  have r: "concat (map (\<lambda>d. [fst d, snd d]) (emitted tree_fs (run_options [''proj''] False []))) @ [[]] =
        [''proj/a.txt'', ''hi'', ''proj/build/out.txt'', ''o'', []]"
    unfolding e by simp
  from st(2) r have "split_on delimiter (out st) = [''proj/a.txt'', ''hi'', ''proj/build/out.txt'', ''o'', []]"
    by (rule trans)
  with st(1) show ?thesis by simp
qed

text \<open>
  C9. For an entry that is not a directory, \<open>should_ignore\<close> is decided by the
  entry's filename alone: it holds exactly when some rule matches the filename, so two
  such entries with the same filename fare alike, wherever they lie. A rule that is a
  directory name followed by a slash matches no filename, so adding it to the rules
  excludes nothing. A directory entry is passed over by the loop before any filter is
  consulted, whatever the rules are.
\<close>

theorem gitignore_check_sees_only_the_basename:
  assumes "\<not> fs_is_directory fs p" and "\<not> fs_is_directory fs p'"
    and "filename p = filename p'"
    and "NUL \<notin> set d"
    and "fs_is_directory fs dir"
  shows "should_ignore fs p rules = list_ex (\<lambda>rule. fnmatch rule (filename p)) rules \<and>
         should_ignore fs p rules = should_ignore fs p' rules \<and>
         should_ignore fs p (rules @ [d @ ''/''] @ rules') = should_ignore fs p (rules @ rules') \<and>
         process_directory_loop fs (dir # entries) exts hid ig rules pats w xml st =
           process_directory_loop fs entries exts hid ig rules pats w xml st"
proof -
  have a: "should_ignore fs p rules = list_ex (\<lambda>rule. fnmatch rule (filename p)) rules"
    by (rule should_ignore_file_entry [OF assms(1)])
  have b: "should_ignore fs p rules = should_ignore fs p' rules"
    by (simp add: should_ignore_file_entry [OF assms(1)] should_ignore_file_entry [OF assms(2)] assms(3))
  have "\<not> should_ignore fs p [d @ ''/'']"
    using assms(1) fnmatch_directory_rule [OF assms(4), of p] by simp
  then have c: "should_ignore fs p (rules @ [d @ ''/''] @ rules') = should_ignore fs p (rules @ rules')"
    by (simp only: should_ignore_append) simp
  have e: "process_directory_loop fs (dir # entries) exts hid ig rules pats w xml st =
           process_directory_loop fs entries exts hid ig rules pats w xml st"
    using assms(5) by simp
  from a b c e show ?thesis by (intro conjI)
qed

theorem gitignore_check_witness:
  "\<not> fs_is_directory tree_fs ''proj/build/out.txt'' \<and>
   filename ''proj/build/out.txt'' = filename ''out.txt'' \<and>
   should_ignore tree_fs ''proj/build/out.txt'' ([''*.tmp''] @ [''build'' @ ''/''] @ []) = False"
proof -
  have a: "\<not> fs_is_directory tree_fs ''proj/build/out.txt''" by code_simp
  have b: "\<not> fs_is_directory tree_fs ''out.txt''" by code_simp
  have c: "filename ''proj/build/out.txt'' = filename ''out.txt''" by code_simp
  have d: "NUL \<notin> set ''build''" by code_simp
  have e: "fs_is_directory tree_fs ''proj/build''" by code_simp
  note t = gitignore_check_sees_only_the_basename [OF a b c d e, of "[''*.tmp'']" "[]"]
  have r: "should_ignore tree_fs ''proj/build/out.txt'' ([''*.tmp''] @ []) = False" by code_simp
  from t [THEN conjunct2, THEN conjunct2, THEN conjunct1] r
  have "should_ignore tree_fs ''proj/build/out.txt'' ([''*.tmp''] @ [''build'' @ ''/''] @ []) = False"
    by (rule trans)
  with a c show ?thesis by (intro conjI)
qed

text \<open>
  C10. A root without a slash (the default root \<open>.\<close>, a bare file name) has the empty
  parent path, so \<open>read_gitignore\<close> opens \<open>/.gitignore\<close>, the empty string followed by
  \<open>/.gitignore\<close>: the rules loaded for the root are those of that file, and none when it
  does not open.
\<close>

theorem root_without_parent_reads_root_gitignore:
  assumes "CHR ''/'' \<notin> set root"
  shows "parent_path root = [] \<and>
         read_gitignore fs (parent_path root) =
           (case fopen_r fs ''/.gitignore'' of
              None \<Rightarrow> []
            | Some bytes \<Rightarrow> read_gitignore_loop [] (getlines [] bytes))"
  using parent_path_no_slash [OF assms]
  by (simp add: read_gitignore_def c_str_def NUL_def)

theorem root_without_parent_witness:
  "CHR ''/'' \<notin> set ''.'' \<and> parent_path ''.'' = [] \<and>
   read_gitignore tree_fs (parent_path ''.'') = [''build/'', ''*.tmp'']"
proof -
  have h: "CHR ''/'' \<notin> set ''.''" by simp
  note t = root_without_parent_reads_root_gitignore [OF h, of tree_fs]
  have e: "(case fopen_r tree_fs ''/.gitignore'' of
              None \<Rightarrow> []
            | Some bytes \<Rightarrow> read_gitignore_loop [] (getlines [] bytes)) = [''build/'', ''*.tmp'']"
    by code_simp
  from t have a: "parent_path ''.'' = []" by (rule conjunct1)
  from t [THEN conjunct2] e
  have c: "read_gitignore tree_fs (parent_path ''.'') = [''build/'', ''*.tmp'']"
    by (rule trans)
  from h a c show ?thesis by (intro conjI)
qed

end
